theory Spec2Isabelle
  imports Main "HOL-Library.Word"
begin

unbundle bit_operations_syntax

section \<open>The qcache memory hierarchy (src/qcache/qcache.h)\<close>

subsection \<open>Data model\<close>

text \<open>
  \<open>addr_t\<close> is \<open>uint64_t\<close>, \<open>timestamp_t\<close> is \<open>unsigned\<close> (32 bits on the targets
  of the simulator), and \<open>TIMESTAMP_MAX\<close> is \<open>UINT_MAX\<close>.
\<close>

type_synonym addr_t = "64 word"
type_synonym timestamp_t = "32 word"

definition TIMESTAMP_MAX :: timestamp_t where
  "TIMESTAMP_MAX = 4294967295"

text \<open>
  The template parameters of \<open>Cache\<close>. \<open>SHARED\<close> only selects whether the unit-wide
  spin lock is taken; in the sequential model every lock is acquired and released
  within one call and has no effect on the state, so locks are not part of it.
\<close>

record geom =
  WAYS :: nat
  L2SETS :: nat
  L2LINESZ :: nat

text \<open>
  The source computes \<open>1<<L2LINESZ\<close> and \<open>1<<L2SETS\<close> in \<open>int\<close> and the array sizes
  from \<open>WAYS\<close>, an \<open>int\<close>: the geometry is meaningful for at least one way and shift
  counts below 31. Within these bounds \<open>set*WAYS\<close> and \<open>(set+1)*WAYS\<close> stay far below
  \<open>2^64\<close>, so slot indices are modelled as natural numbers.
\<close>

definition wf_geom :: "geom \<Rightarrow> bool" where
  "wf_geom g = (0 < WAYS g \<and> WAYS g < 2 ^ 31 \<and> L2SETS g < 31 \<and> L2LINESZ g < 31)"

text \<open>
  The lower-level device is reached only through the two virtual calls of
  \<open>MemSysDev\<close>; it is modelled by the sequence of calls it has received.
\<close>

datatype ll_call = LLAccess addr_t bool | LLInvalidate addr_t

record cache =
  tagarray :: "64 word list"
  tsarray :: "timestamp_t list"
  tsmax :: "timestamp_t list"
  accesses :: "64 word"
  misses :: "64 word"
  lowerLevel :: "ll_call list"

text \<open>
  \<open>ASSERT\<close> prints a diagnostic and calls \<open>abort()\<close>. A call either returns with the
  new state, or aborts; \<open>Aborted\<close> carries the state reached when the assertion failed.
\<close>

datatype 'a result = Returned 'a | Aborted 'a

fun state_of :: "'a result \<Rightarrow> 'a" where
  "state_of (Returned c) = c"
| "state_of (Aborted c) = c"

fun is_aborted :: "'a result \<Rightarrow> bool" where
  "is_aborted (Returned c) = False"
| "is_aborted (Aborted c) = True"

subsection \<open>Address decomposition and slot predicates\<close>

definition stateMask :: "geom \<Rightarrow> 64 word" where
  "stateMask g = push_bit (L2LINESZ g) 1 - 1"

definition tagOf :: "geom \<Rightarrow> addr_t \<Rightarrow> 64 word" where
  "tagOf g addr = drop_bit (L2LINESZ g) addr"

definition setOf :: "geom \<Rightarrow> addr_t \<Rightarrow> nat" where
  "setOf g addr = unat (tagOf g addr mod push_bit (L2SETS g) 1)"

text \<open>The slots \<open>set*WAYS \<dots> (set+1)*WAYS - 1\<close> of a set, in scan order.\<close>

definition slots :: "geom \<Rightarrow> nat \<Rightarrow> nat list" where
  "slots g s = [s * WAYS g ..< (s + 1) * WAYS g]"

text \<open>\<open>tagarray[idx] & stateMask\<close>: the slot's state bits are not all clear.\<close>

definition slotValid :: "geom \<Rightarrow> cache \<Rightarrow> nat \<Rightarrow> bool" where
  "slotValid g c idx = (tagarray c ! idx AND stateMask g \<noteq> 0)"

text \<open>\<open>tagarray[idx] >> L2LINESZ\<close>: the tag stored in a slot.\<close>

definition slotTag :: "geom \<Rightarrow> cache \<Rightarrow> nat \<Rightarrow> 64 word" where
  "slotTag g c idx = drop_bit (L2LINESZ g) (tagarray c ! idx)"

subsection \<open>Cache operations\<close>

text \<open>
  \<open>initArrays\<close> writes 0 to every entry of the three arrays, whatever they held.
\<close>

definition initArrays :: "geom \<Rightarrow> cache \<Rightarrow> cache" where
  "initArrays g c =
     c\<lparr> tagarray := replicate (WAYS g * 2 ^ L2SETS g) 0,
        tsarray := replicate (WAYS g * 2 ^ L2SETS g) 0,
        tsmax := replicate (2 ^ L2SETS g) 0 \<rparr>"

text \<open>
  The constructor: \<open>accesses(0), misses(0)\<close>, then \<open>initArrays()\<close>. The arrays are
  indeterminate before \<open>initArrays\<close> overwrites them; the lower-level device has
  received no call yet.
\<close>

definition newCache :: "geom \<Rightarrow> cache" where
  "newCache g =
     initArrays g \<lparr> tagarray = [], tsarray = [], tsmax = [],
                    accesses = 0, misses = 0, lowerLevel = [] \<rparr>"

text \<open>
  \<open>updateRepl\<close>: the assertion, then \<open>tsarray[idx] = ++tsmax[set]\<close>.
\<close>

definition updateRepl :: "cache \<Rightarrow> nat \<Rightarrow> nat \<Rightarrow> cache result" where
  "updateRepl c s idx =
     (if tsmax c ! s = TIMESTAMP_MAX then Aborted c
      else Returned (c\<lparr> tsmax := (tsmax c)[s := tsmax c ! s + 1],
                        tsarray := (tsarray c)[idx := tsmax c ! s + 1] \<rparr>))"

text \<open>
  The loop of \<open>findVictim\<close> over the remaining slots, carrying \<open>maxIdx\<close> and \<open>maxTs\<close>:
  it returns at once at a slot whose state bits are clear.
\<close>

fun findVictim_loop :: "geom \<Rightarrow> cache \<Rightarrow> nat list \<Rightarrow> nat \<Rightarrow> timestamp_t \<Rightarrow> nat" where
  "findVictim_loop g c [] maxIdx maxTs = maxIdx"
| "findVictim_loop g c (i # rest) maxIdx maxTs =
     (if \<not> slotValid g c i then i
      else if tsarray c ! i > maxTs then findVictim_loop g c rest i (tsarray c ! i)
      else findVictim_loop g c rest maxIdx maxTs)"

definition findVictim :: "geom \<Rightarrow> cache \<Rightarrow> nat \<Rightarrow> nat" where
  "findVictim g c s =
     findVictim_loop g c [s * WAYS g + 1 ..< (s + 1) * WAYS g] (s * WAYS g)
       (tsarray c ! (s * WAYS g))"

text \<open>
  The scan at the head of \<open>access\<close>: the first slot of the set whose stored tag is
  \<open>tag\<close> and whose state bits are not all clear.
\<close>

fun findMatch :: "geom \<Rightarrow> cache \<Rightarrow> 64 word \<Rightarrow> nat list \<Rightarrow> nat option" where
  "findMatch g c tag [] = None"
| "findMatch g c tag (idx # rest) =
     (if slotTag g c idx = tag \<and> slotValid g c idx then Some idx
      else findMatch g c tag rest)"

definition access :: "geom \<Rightarrow> cache \<Rightarrow> addr_t \<Rightarrow> bool \<Rightarrow> cache result" where
  "access g c addr wr =
     (let c1 = c\<lparr> accesses := accesses c + 1 \<rparr>;
          tag = tagOf g addr;
          s = setOf g addr
      in case findMatch g c1 tag (slots g s) of
           Some idx \<Rightarrow> updateRepl c1 s idx
         | None \<Rightarrow>
             (let c2 = c1\<lparr> misses := misses c1 + 1 \<rparr>;
                  c3 = c2\<lparr> lowerLevel :=
                           lowerLevel c2 @ [LLAccess (push_bit (L2LINESZ g) tag) wr] \<rparr>;
                  idx = findVictim g c3 s
              in case updateRepl c3 s idx of
                   Aborted c4 \<Rightarrow> Aborted c4
                 | Returned c4 \<Rightarrow>
                     Returned (c4\<lparr> tagarray :=
                       (tagarray c4)[idx := push_bit (L2LINESZ g) tag OR 1] \<rparr>)))"

text \<open>The loop of \<open>invalidate\<close>: a slot whose stored tag matches is overwritten by 0.\<close>

fun invalidate_loop :: "geom \<Rightarrow> 64 word \<Rightarrow> nat list \<Rightarrow> cache \<Rightarrow> cache" where
  "invalidate_loop g tag [] c = c"
| "invalidate_loop g tag (idx # rest) c =
     invalidate_loop g tag rest
       (if slotTag g c idx = tag then c\<lparr> tagarray := (tagarray c)[idx := 0] \<rparr> else c)"

definition invalidate :: "geom \<Rightarrow> cache \<Rightarrow> addr_t \<Rightarrow> cache" where
  "invalidate g c addr = invalidate_loop g (tagOf g addr) (slots g (setOf g addr)) c"

text \<open>Whether the scan of \<open>access\<close> finds the line: the outcome of the call.\<close>

definition isHit :: "geom \<Rightarrow> cache \<Rightarrow> addr_t \<Rightarrow> bool" where
  "isHit g c addr = (findMatch g c (tagOf g addr) (slots g (setOf g addr)) \<noteq> None)"

text \<open>
  The arrays are members of fixed size: \<open>tagarray\<close> and \<open>tsarray\<close> have
  \<open>WAYS << L2SETS\<close> entries, \<open>tsmax\<close> has \<open>1 << L2SETS\<close>.
\<close>

definition wf_cache :: "geom \<Rightarrow> cache \<Rightarrow> bool" where
  "wf_cache g c =
     (length (tagarray c) = WAYS g * 2 ^ L2SETS g \<and>
      length (tsarray c) = WAYS g * 2 ^ L2SETS g \<and>
      length (tsmax c) = 2 ^ L2SETS g)"

text \<open>The valid slots of set \<open>s\<close> that hold tag \<open>t\<close>.\<close>

definition residentSlots :: "geom \<Rightarrow> cache \<Rightarrow> nat \<Rightarrow> 64 word \<Rightarrow> nat list" where
  "residentSlots g c s t =
     filter (\<lambda>i. slotValid g c i \<and> slotTag g c i = t) (slots g s)"

text \<open>The valid slots of set \<open>s\<close>: its resident lines.\<close>

definition residentLines :: "geom \<Rightarrow> cache \<Rightarrow> nat \<Rightarrow> nat list" where
  "residentLines g c s = filter (slotValid g c) (slots g s)"

text \<open>
  No tag is held by two valid slots of one set. The invariant behind C7.
\<close>

definition noDup :: "geom \<Rightarrow> cache \<Rightarrow> bool" where
  "noDup g c =
     (\<forall>s < 2 ^ L2SETS g. \<forall>i \<in> set (slots g s). \<forall>j \<in> set (slots g s).
        slotValid g c i \<and> slotValid g c j \<and> slotTag g c i = slotTag g c j \<longrightarrow> i = j)"

subsection \<open>Call sequences on one cache unit\<close>

datatype op = Access addr_t bool | Invalidate addr_t

text \<open>A requester issues the calls in order; an abort ends the process.\<close>

fun run :: "geom \<Rightarrow> op list \<Rightarrow> cache \<Rightarrow> cache result" where
  "run g [] c = Returned c"
| "run g (Access addr wr # ops) c =
     (case access g c addr wr of
        Aborted c' \<Rightarrow> Aborted c'
      | Returned c' \<Rightarrow> run g ops c')"
| "run g (Invalidate addr # ops) c = run g ops (invalidate g c addr)"

subsection \<open>The tracer\<close>

text \<open>The only thing thrown in the header is \<open>InvalidAccess\<close>.\<close>

datatype error = InvalidAccess

text \<open>
  \<open>tracefile << std::dec << addr\<close>: the decimal digits of an unsigned value, most
  significant first, on a stream in good state and with no field width set.
\<close>

definition digit :: "nat \<Rightarrow> char" where
  "digit d = ''0123456789'' ! d"

fun dec :: "nat \<Rightarrow> string" where
  "dec n = (if n < 10 then [digit n] else dec (n div 10) @ [digit (n mod 10)])"

text \<open>Reading a digit string back, to state what the digits denote.\<close>

definition digitVal :: "char \<Rightarrow> nat" where
  "digitVal ch = of_char ch - 48"

definition undec :: "string \<Rightarrow> nat" where
  "undec s = foldl (\<lambda>n ch. 10 * n + digitVal ch) 0 s"

text \<open>The tracer's state is the text its stream has received.\<close>

definition Tracer_access :: "string \<Rightarrow> addr_t \<Rightarrow> bool \<Rightarrow> string" where
  "Tracer_access tracefile addr wr =
     tracefile @ dec (unat addr) @ (if wr then '' W'' @ [CHR 0x0A] else '' R'' @ [CHR 0x0A])"

definition Tracer_invalidate :: "string \<Rightarrow> addr_t \<Rightarrow> error + string" where
  "Tracer_invalidate tracefile addr = Inl InvalidAccess"

subsection \<open>Geometries of the scenarios\<close>

text \<open>One way, one set, 64-byte lines.\<close>

definition geom_1way :: geom where
  "geom_1way = \<lparr> WAYS = 1, L2SETS = 0, L2LINESZ = 6 \<rparr>"

text \<open>Two ways, one set, 64-byte lines.\<close>

definition geom_2way :: geom where
  "geom_2way = \<lparr> WAYS = 2, L2SETS = 0, L2LINESZ = 6 \<rparr>"

text \<open>Two ways, two sets, 64-byte lines.\<close>

definition geom_2x2 :: geom where
  "geom_2x2 = \<lparr> WAYS = 2, L2SETS = 1, L2LINESZ = 6 \<rparr>"

text \<open>Three ways, one set, 64-byte lines.\<close>

definition geom_3way :: geom where
  "geom_3way = \<lparr> WAYS = 3, L2SETS = 0, L2LINESZ = 6 \<rparr>"

text \<open>
  The three-way unit after \<open>access(64,false)\<close> and \<open>access(128,false)\<close> on the fresh
  state: tags 1 and 2 are resident in ways 1 and 2 of the only set.
\<close>

definition cache_3way_two :: cache where
  "cache_3way_two = \<lparr> tagarray = [0, 65, 129], tsarray = [0, 1, 2], tsmax = [2],
                       accesses = 2, misses = 2,
                       lowerLevel = [LLAccess 64 False, LLAccess 128 False] \<rparr>"

text \<open>
  A two-way, one-set unit whose set counter has reached \<open>TIMESTAMP_MAX\<close>; way 1 holds
  the line of address 64.
\<close>

definition cache_full_ts :: cache where
  "cache_full_ts = \<lparr> tagarray = [0, 65], tsarray = [0, 4294967295], tsmax = [4294967295],
                      accesses = 7, misses = 3, lowerLevel = [] \<rparr>"

text \<open>
  The two-way, two-set unit after \<open>access(64,false)\<close> and \<open>access(128,true)\<close> on the
  fresh state: tag 1 sits in set 1, tag 2 in set 0.
\<close>

definition cache_after_two :: cache where
  "cache_after_two = \<lparr> tagarray = [0, 129, 0, 65], tsarray = [0, 1, 0, 1], tsmax = [1, 1],
                        accesses = 2, misses = 2,
                        lowerLevel = [LLAccess 64 False, LLAccess 128 True] \<rparr>"

lemmas geom_defs = geom_1way_def geom_2way_def geom_2x2_def geom_3way_def

lemmas cache_defs =
  access_def newCache_def initArrays_def slots_def tagOf_def setOf_def slotTag_def slotValid_def
  stateMask_def findVictim_def updateRepl_def TIMESTAMP_MAX_def isHit_def invalidate_def

section \<open>Auxiliary facts\<close>

subsection \<open>Words\<close>

lemma unat_two_power: "n < 64 \<Longrightarrow> unat (2 ^ n :: 64 word) = 2 ^ n"
proof -
  assume "n < 64"
  then have "(0 :: 64 word) < 2 ^ n"
    by (simp add: word_gt_0)
  then have "uint (2 ^ n :: 64 word) = 2 ^ n"
    by (rule uint_2p)
  then show ?thesis
    by (simp add: unat_eq_nat_uint del: nat_uint_eq)
qed

lemma setOf_less: "L2SETS g < 64 \<Longrightarrow> setOf g addr < 2 ^ L2SETS g"
proof -
  assume "L2SETS g < 64"
  then have "unat (2 ^ L2SETS g :: 64 word) = 2 ^ L2SETS g"
    by (simp add: unat_two_power)
  then show ?thesis
    unfolding setOf_def by (simp add: unat_mod push_bit_eq_mult)
qed

lemma setOf_less_wf: "wf_geom g \<Longrightarrow> setOf g addr < 2 ^ L2SETS g"
  by (rule setOf_less) (simp add: wf_geom_def)

lemma ts_max_eq: "TIMESTAMP_MAX = - 1"
  by (simp add: TIMESTAMP_MAX_def)

lemma ts_succ_ne: "(x :: timestamp_t) \<noteq> TIMESTAMP_MAX \<Longrightarrow> 1 + x \<noteq> 0"
  using max_word_wrap [of x] by (auto simp: ts_max_eq add.commute)

lemma unat_ts_succ:
  "(x :: timestamp_t) \<noteq> TIMESTAMP_MAX \<Longrightarrow> unat (x + 1) = unat x + 1"
  using unatSuc [of x] ts_succ_ne [of x] by (simp add: add.commute)

lemma block_aligned: "push_bit n (drop_bit n (a :: 64 word)) = a AND NOT (mask n)"
  by (rule bit_eqI) (auto simp: bit_simps)

subsection \<open>The scans depend on the arrays only\<close>

lemma findMatch_cong:
  "(\<And>i. i \<in> set xs \<Longrightarrow>
      (slotTag g c i = t \<and> slotValid g c i) = (slotTag g c' i = t \<and> slotValid g c' i))
   \<Longrightarrow> findMatch g c t xs = findMatch g c' t xs"
  by (induction xs) auto

lemma findMatch_tagarray:
  "tagarray c = tagarray c' \<Longrightarrow> findMatch g c t xs = findMatch g c' t xs"
  by (rule findMatch_cong) (simp add: slotTag_def slotValid_def)

lemma findMatch_accesses [simp]:
  "findMatch g (c\<lparr>accesses := a\<rparr>) t xs = findMatch g c t xs"
  by (rule findMatch_tagarray) simp

lemma findMatch_None:
  "findMatch g c t xs = None \<longleftrightarrow>
     (\<forall>i \<in> set xs. \<not> (slotTag g c i = t \<and> slotValid g c i))"
  by (induction xs) auto

lemma findMatch_Some:
  "findMatch g c t xs = Some i \<Longrightarrow> i \<in> set xs \<and> slotTag g c i = t \<and> slotValid g c i"
  by (induction xs) (auto split: if_splits)

lemma findVictim_loop_arrays:
  "tagarray c = tagarray c' \<Longrightarrow> tsarray c = tsarray c' \<Longrightarrow>
   findVictim_loop g c xs m ts = findVictim_loop g c' xs m ts"
  by (induction xs arbitrary: m ts) (simp_all add: slotValid_def)

lemma findVictim_arrays:
  "tagarray c = tagarray c' \<Longrightarrow> tsarray c = tsarray c' \<Longrightarrow>
   findVictim g c s = findVictim g c' s"
  by (simp add: findVictim_def findVictim_loop_arrays [of c c'])

lemma findVictim_loop_mem:
  "findVictim_loop g c xs m ts \<in> insert m (set xs)"
  by (induction xs arbitrary: m ts) auto

lemma findVictim_mem:
  "0 < WAYS g \<Longrightarrow> findVictim g c s \<in> set (slots g s)"
  using findVictim_loop_mem [of g c "[s * WAYS g + 1 ..< (s + 1) * WAYS g]" "s * WAYS g"
      "tsarray c ! (s * WAYS g)"]
  by (auto simp: findVictim_def slots_def)

subsection \<open>One call of access, by outcome\<close>

lemma access_hit:
  assumes "findMatch g c (tagOf g addr) (slots g (setOf g addr)) = Some idx"
  shows "access g c addr wr =
           updateRepl (c\<lparr>accesses := accesses c + 1\<rparr>) (setOf g addr) idx"
  using assms by (simp add: access_def Let_def)

lemma access_miss:
  assumes "findMatch g c (tagOf g addr) (slots g (setOf g addr)) = None"
  shows "access g c addr wr =
     (let c3 = c\<lparr> accesses := accesses c + 1, misses := misses c + 1,
                  lowerLevel := lowerLevel c @
                    [LLAccess (push_bit (L2LINESZ g) (tagOf g addr)) wr] \<rparr>;
          idx = findVictim g c3 (setOf g addr)
      in case updateRepl c3 (setOf g addr) idx of
           Aborted c4 \<Rightarrow> Aborted c4
         | Returned c4 \<Rightarrow> Returned (c4\<lparr> tagarray :=
                       (tagarray c4)[idx := push_bit (L2LINESZ g) (tagOf g addr) OR 1] \<rparr>))"
  using assms by (simp add: access_def Let_def split: result.split)

lemma access_eq:
  "access g c addr wr =
     (let s = setOf g addr; t = tagOf g addr in
      case findMatch g c t (slots g s) of
        Some idx \<Rightarrow>
          (if tsmax c ! s = TIMESTAMP_MAX then Aborted (c\<lparr> accesses := accesses c + 1 \<rparr>)
           else Returned (c\<lparr> accesses := accesses c + 1,
                            tsmax := (tsmax c)[s := tsmax c ! s + 1],
                            tsarray := (tsarray c)[idx := tsmax c ! s + 1] \<rparr>))
      | None \<Rightarrow>
          (let c3 = c\<lparr> accesses := accesses c + 1, misses := misses c + 1,
                       lowerLevel := lowerLevel c @ [LLAccess (push_bit (L2LINESZ g) t) wr] \<rparr>;
               idx = findVictim g c s
           in if tsmax c ! s = TIMESTAMP_MAX then Aborted c3
              else Returned (c3\<lparr> tsmax := (tsmax c)[s := tsmax c ! s + 1],
                                tsarray := (tsarray c)[idx := tsmax c ! s + 1],
                                tagarray :=
                                  (tagarray c)[idx := push_bit (L2LINESZ g) t OR 1] \<rparr>)))"
proof (cases "findMatch g c (tagOf g addr) (slots g (setOf g addr))")
  case None
  have fv: "findVictim g (c\<lparr> accesses := accesses c + 1, misses := misses c + 1,
                lowerLevel := lowerLevel c @
                  [LLAccess (push_bit (L2LINESZ g) (tagOf g addr)) wr] \<rparr>) (setOf g addr)
           = findVictim g c (setOf g addr)"
    by (rule findVictim_arrays) simp_all
  show ?thesis
    using None by (simp add: access_miss Let_def updateRepl_def fv)
next
  case (Some idx)
  then show ?thesis
    by (simp add: access_hit Let_def updateRepl_def)
qed

subsection \<open>Slots, invalidation and the residency invariant\<close>

lemma stateMask_mask: "stateMask g = mask (L2LINESZ g)"
  by (simp add: stateMask_def mask_eq_exp_minus_1 push_bit_eq_mult)

lemma installed_word:
  fixes a :: "64 word"
  assumes "(push_bit n (drop_bit n a) OR 1) AND mask n \<noteq> 0"
  shows "drop_bit n (push_bit n (drop_bit n a) OR 1) = drop_bit n a"
proof (cases "n = 0")
  case True
  with assms show ?thesis by simp
next
  case False
  then show ?thesis
    by (intro bit_eqI) (auto simp: bit_simps dest: bit_imp_le_length)
qed

lemma slots_disjoint:
  assumes "i \<in> set (slots g s)" and "i \<in> set (slots g s')"
  shows "s = s'"
proof (rule ccontr)
  assume ne: "s \<noteq> s'"
  have aux: False if "a < b" "i < (a + 1) * WAYS g" "b * WAYS g \<le> i" for a b
  proof -
    from that(1) have "(a + 1) * WAYS g \<le> b * WAYS g"
      by (intro mult_le_mono1) simp
    with that(2,3) show False by simp
  qed
  from ne consider "s < s'" | "s' < s" by arith
  then show False
    using assms aux [of s s'] aux [of s' s] by cases (simp_all add: slots_def)
qed

lemma length_slots: "length (slots g s) = WAYS g"
  by (simp add: slots_def)

lemma distinct_slots: "distinct (slots g s)"
  by (simp add: slots_def)

lemma filter_at_most_one:
  assumes d: "distinct ys"
    and u: "\<forall>a \<in> set ys. \<forall>b \<in> set ys. Q a \<and> Q b \<longrightarrow> a = b"
  shows "length (filter Q ys) \<le> 1"
  using d u
proof (induction ys)
  case Nil
  show ?case by simp
next
  case (Cons y ys)
  show ?case
  proof (cases "Q y")
    case False
    with Cons show ?thesis by simp
  next
    case True
    have "\<not> Q z" if "z \<in> set ys" for z
    proof
      assume "Q z"
      with True that Cons.prems(2) have "y = z" by simp
      with that Cons.prems(1) show False by simp
    qed
    then have "filter Q ys = []"
      by (simp add: filter_empty_conv)
    with True show ?thesis by simp
  qed
qed

lemma slots_in_range:
  assumes "s < 2 ^ L2SETS g" and "i \<in> set (slots g s)"
  shows "i < WAYS g * 2 ^ L2SETS g"
proof -
  from assms(2) have "i < (s + 1) * WAYS g"
    by (simp add: slots_def)
  moreover from assms(1) have "(s + 1) * WAYS g \<le> 2 ^ L2SETS g * WAYS g"
    by (intro mult_le_mono1) simp
  ultimately show ?thesis
    by (simp add: mult.commute)
qed

lemma installed_tag:
  assumes "idx < length (tagarray c)"
    and "tagarray c' = (tagarray c)[idx := push_bit (L2LINESZ g) (tagOf g a) OR 1]"
    and "slotValid g c' idx"
  shows "slotTag g c' idx = tagOf g a"
  using assms installed_word [of "L2LINESZ g" a]
  by (simp add: slotValid_def slotTag_def tagOf_def stateMask_mask)

lemma noDup_same_tags:
  "tagarray c' = tagarray c \<Longrightarrow> noDup g c' = noDup g c"
  by (simp add: noDup_def slotValid_def slotTag_def)

lemma noDup_install:
  assumes g: "wf_geom g" and w: "wf_cache g c" and n: "noDup g c"
    and miss: "findMatch g c (tagOf g a) (slots g (setOf g a)) = None"
    and idx: "idx \<in> set (slots g (setOf g a))"
    and c': "tagarray c' = (tagarray c)[idx := push_bit (L2LINESZ g) (tagOf g a) OR 1]"
  shows "noDup g c'"
  unfolding noDup_def
proof (intro allI impI ballI)
  fix s i j
  assume s: "s < 2 ^ L2SETS g" and i: "i \<in> set (slots g s)" and j: "j \<in> set (slots g s)"
    and v: "slotValid g c' i \<and> slotValid g c' j \<and> slotTag g c' i = slotTag g c' j"
  have len: "idx < length (tagarray c)"
    using slots_in_range [OF setOf_less_wf [OF g] idx] w by (simp add: wf_cache_def)
  have same: "slotValid g c' k = slotValid g c k \<and> slotTag g c' k = slotTag g c k"
    if "k \<noteq> idx" for k
    using that c' by (simp add: slotValid_def slotTag_def)
  have clash: False if "k \<in> set (slots g s)" "k \<noteq> idx" "slotValid g c' k"
    "slotValid g c' idx" "slotTag g c' k = slotTag g c' idx" "idx \<in> set (slots g s)" for k
  proof -
    from that(6) idx have "s = setOf g a" by (rule slots_disjoint)
    moreover from that(4) have "slotTag g c' idx = tagOf g a"
      using installed_tag [OF len c'] by simp
    ultimately have "k \<in> set (slots g (setOf g a)) \<and> slotTag g c k = tagOf g a \<and> slotValid g c k"
      using that same [of k] by simp
    with miss show False
      by (auto simp: findMatch_None)
  qed
  show "i = j"
  proof (cases "i = idx")
    case True
    show ?thesis
    proof (cases "j = idx")
      case True
      with \<open>i = idx\<close> show ?thesis by simp
    next
      case False
      with True v i j clash [of j] show ?thesis by auto
    qed
  next
    case False
    show ?thesis
    proof (cases "j = idx")
      case True
      with False v i j clash [of i] show ?thesis by auto
    next
      case jn: False
      with False v same [of i] same [of j] have
        "slotValid g c i \<and> slotValid g c j \<and> slotTag g c i = slotTag g c j" by simp
      with n s i j show ?thesis
        unfolding noDup_def by blast
    qed
  qed
qed


lemma inv_init: "wf_cache g (newCache g) \<and> noDup g (newCache g)"
proof -
  have "\<not> slotValid g (newCache g) i" if "s < 2 ^ L2SETS g" "i \<in> set (slots g s)" for s i
    using slots_in_range [OF that] by (simp add: slotValid_def newCache_def initArrays_def)
  then show ?thesis
    by (auto simp: wf_cache_def noDup_def newCache_def initArrays_def)
qed

lemma inv_access:
  assumes g: "wf_geom g" and w: "wf_cache g c" and n: "noDup g c"
  shows "wf_cache g (state_of (access g c a wr)) \<and> noDup g (state_of (access g c a wr))"
proof (cases "findMatch g c (tagOf g a) (slots g (setOf g a))")
  case (Some idx)
  then have "tagarray (state_of (access g c a wr)) = tagarray c"
    and "length (tsarray (state_of (access g c a wr))) = length (tsarray c)"
    and "length (tsmax (state_of (access g c a wr))) = length (tsmax c)"
    by (simp_all add: access_eq Let_def)
  then show ?thesis
    using w n noDup_same_tags [of "state_of (access g c a wr)" c g]
    by (simp add: wf_cache_def)
next
  case None
  show ?thesis
  proof (cases "tsmax c ! setOf g a = TIMESTAMP_MAX")
    case True
    with None have "tagarray (state_of (access g c a wr)) = tagarray c"
      and "length (tsarray (state_of (access g c a wr))) = length (tsarray c)"
      and "length (tsmax (state_of (access g c a wr))) = length (tsmax c)"
      by (simp_all add: access_eq Let_def)
    then show ?thesis
      using w n noDup_same_tags [of "state_of (access g c a wr)" c g]
      by (simp add: wf_cache_def)
  next
    case False
    let ?idx = "findVictim g c (setOf g a)"
    from None False have t: "tagarray (state_of (access g c a wr)) =
        (tagarray c)[?idx := push_bit (L2LINESZ g) (tagOf g a) OR 1]"
      and "length (tsarray (state_of (access g c a wr))) = length (tsarray c)"
      and "length (tsmax (state_of (access g c a wr))) = length (tsmax c)"
      by (simp_all add: access_eq Let_def)
    then have "wf_cache g (state_of (access g c a wr))"
      using w by (simp add: wf_cache_def)
    moreover have "?idx \<in> set (slots g (setOf g a))"
      using g by (intro findVictim_mem) (simp add: wf_geom_def)
    then have "noDup g (state_of (access g c a wr))"
      using noDup_install [OF g w n None _ t] by simp
    ultimately show ?thesis by simp
  qed
qed

lemma invalidate_loop_frame:
  "tsarray (invalidate_loop g t xs c) = tsarray c \<and>
   tsmax (invalidate_loop g t xs c) = tsmax c \<and>
   accesses (invalidate_loop g t xs c) = accesses c \<and>
   misses (invalidate_loop g t xs c) = misses c \<and>
   lowerLevel (invalidate_loop g t xs c) = lowerLevel c \<and>
   length (tagarray (invalidate_loop g t xs c)) = length (tagarray c)"
  by (induction xs arbitrary: c) simp_all

lemma invalidate_loop_nth:
  "j < length (tagarray c) \<Longrightarrow>
   tagarray (invalidate_loop g t xs c) ! j =
     (if j \<in> set xs \<and> slotTag g c j = t then 0 else tagarray c ! j)"
proof (induction xs arbitrary: c)
  case Nil
  show ?case by simp
next
  case (Cons x xs)
  let ?c1 = "if slotTag g c x = t then c\<lparr> tagarray := (tagarray c)[x := 0] \<rparr> else c"
  have len: "j < length (tagarray ?c1)"
    using Cons.prems by simp
  have step: "tagarray (invalidate_loop g t (x # xs) c) ! j =
      (if j \<in> set xs \<and> slotTag g ?c1 j = t then 0 else tagarray ?c1 ! j)"
    using Cons.IH [OF len] by simp
  show ?case
  proof (cases "j = x")
    case True
    with Cons.prems step show ?thesis
      by (auto simp: slotTag_def)
  next
    case False
    with Cons.prems step show ?thesis
      by (auto simp: slotTag_def)
  qed
qed

lemma invalidate_nth:
  "j < length (tagarray c) \<Longrightarrow>
   tagarray (invalidate g c X) ! j =
     (if j \<in> set (slots g (setOf g X)) \<and> slotTag g c j = tagOf g X then 0
      else tagarray c ! j)"
  by (simp add: invalidate_def invalidate_loop_nth)

lemmas invalidate_frame = invalidate_loop_frame [of g "tagOf g X" "slots g (setOf g X)" c,
    folded invalidate_def] for g c X

lemma zero_not_valid: "tagarray c ! i = 0 \<Longrightarrow> \<not> slotValid g c i"
  by (simp add: slotValid_def)

lemma invalidate_slot:
  assumes "i < length (tagarray c)"
  shows "(slotTag g (invalidate g c X) i = t \<and> slotValid g (invalidate g c X) i) =
         (slotTag g c i = t \<and> slotValid g c i \<and>
          \<not> (i \<in> set (slots g (setOf g X)) \<and> slotTag g c i = tagOf g X))"
  using invalidate_nth [OF assms, of g X]
  by (auto simp: slotTag_def slotValid_def)


lemma inv_invalidate:
  assumes g: "wf_geom g" and w: "wf_cache g c" and n: "noDup g c"
  shows "wf_cache g (invalidate g c X) \<and> noDup g (invalidate g c X)"
proof -
  have w': "wf_cache g (invalidate g c X)"
    using w invalidate_frame [of g c X] by (simp add: wf_cache_def)
  have keep: "slotValid g c i \<and> slotTag g c i = slotTag g (invalidate g c X) i"
    if "s < 2 ^ L2SETS g" "i \<in> set (slots g s)" "slotValid g (invalidate g c X) i" for s i
  proof -
    have "i < length (tagarray c)"
      using slots_in_range [OF that(1,2)] w by (simp add: wf_cache_def)
    from invalidate_slot [OF this, of g X "slotTag g (invalidate g c X) i"] that(3)
    show ?thesis by simp
  qed
  have "noDup g (invalidate g c X)"
    unfolding noDup_def
  proof (intro allI impI ballI)
    fix s i j
    assume s: "s < 2 ^ L2SETS g" and i: "i \<in> set (slots g s)" and j: "j \<in> set (slots g s)"
      and v: "slotValid g (invalidate g c X) i \<and> slotValid g (invalidate g c X) j \<and>
              slotTag g (invalidate g c X) i = slotTag g (invalidate g c X) j"
    from keep [OF s i] keep [OF s j] v
    have "slotValid g c i \<and> slotValid g c j \<and> slotTag g c i = slotTag g c j" by simp
    with n s i j show "i = j"
      unfolding noDup_def by blast
  qed
  with w' show ?thesis by simp
qed

lemma inv_run:
  assumes g: "wf_geom g"
  shows "wf_cache g c \<Longrightarrow> noDup g c \<Longrightarrow>
         wf_cache g (state_of (run g ops c)) \<and> noDup g (state_of (run g ops c))"
proof (induction ops arbitrary: c)
  case Nil
  then show ?case by simp
next
  case (Cons x ops)
  show ?case
  proof (cases x)
    case (Access a wr)
    note step = inv_access [OF g Cons.prems, of a wr]
    show ?thesis
    proof (cases "access g c a wr")
      case (Returned c')
      with step Cons.IH [of c'] Access show ?thesis by simp
    next
      case (Aborted c')
      with step Access show ?thesis by simp
    qed
  next
    case (Invalidate a)
    with inv_invalidate [OF g Cons.prems, of a] Cons.IH [of "invalidate g c a"]
    show ?thesis by simp
  qed
qed

subsection \<open>What findVictim returns\<close>

text \<open>
  The loop tests the state bits of ways 1 and up only. When way 0 is valid the result
  is the first invalid slot of the set, if there is one; when every slot is valid it
  is a slot of the set with the greatest timestamp.
\<close>

lemma slots_Cons: "0 < WAYS g \<Longrightarrow> slots g s = (s * WAYS g) # [s * WAYS g + 1 ..< (s + 1) * WAYS g]"
  by (simp add: slots_def upt_conv_Cons)

lemma findVictim_loop_first_invalid:
  "\<exists>i \<in> set xs. \<not> slotValid g c i \<Longrightarrow>
   findVictim_loop g c xs m ts = hd (filter (\<lambda>i. \<not> slotValid g c i) xs)"
  by (induction xs arbitrary: m ts) auto

lemma findVictim_loop_max:
  "\<forall>i \<in> set xs. slotValid g c i \<Longrightarrow>
   \<forall>i \<in> insert m (set xs).
      tsarray c ! i \<le> tsarray c ! findVictim_loop g c xs m (tsarray c ! m)"
proof (induction xs arbitrary: m)
  case Nil
  show ?case by simp
next
  case (Cons x xs)
  show ?case
  proof (cases "tsarray c ! x > tsarray c ! m")
    case True
    from Cons.IH [of x] Cons.prems
    have "\<forall>i \<in> insert x (set xs).
        tsarray c ! i \<le> tsarray c ! findVictim_loop g c xs x (tsarray c ! x)"
      by simp
    moreover from this True
    have "tsarray c ! m \<le> tsarray c ! findVictim_loop g c xs x (tsarray c ! x)"
      by (meson insertI1 less_imp_le order_trans)
    ultimately show ?thesis
      using True Cons.prems by simp
  next
    case False
    from Cons.IH [of m] Cons.prems
    have ih: "\<forall>i \<in> insert m (set xs).
        tsarray c ! i \<le> tsarray c ! findVictim_loop g c xs m (tsarray c ! m)"
      by simp
    moreover from this False
    have "tsarray c ! x \<le> tsarray c ! findVictim_loop g c xs m (tsarray c ! m)"
      by (meson insertI1 not_less order_trans)
    ultimately show ?thesis
      using False Cons.prems by simp
  qed
qed

lemma findVictim_way0_valid:
  assumes "0 < WAYS g" and "slotValid g c (s * WAYS g)"
    and "\<exists>i \<in> set (slots g s). \<not> slotValid g c i"
  shows "findVictim g c s = hd (filter (\<lambda>i. \<not> slotValid g c i) (slots g s))"
  using assms findVictim_loop_first_invalid [of "[s * WAYS g + 1 ..< (s + 1) * WAYS g]" g c]
  by (auto simp: slots_Cons findVictim_def)

lemma findVictim_all_valid:
  assumes "0 < WAYS g" and "\<forall>i \<in> set (slots g s). slotValid g c i"
  shows "findVictim g c s \<in> set (slots g s) \<and>
         (\<forall>i \<in> set (slots g s). tsarray c ! i \<le> tsarray c ! findVictim g c s)"
  using assms findVictim_mem [of g c s]
    findVictim_loop_max [of "[s * WAYS g + 1 ..< (s + 1) * WAYS g]" g c "s * WAYS g"]
  by (simp add: slots_Cons findVictim_def)

subsection \<open>Decimal digits\<close>

declare dec.simps [simp del]

lemma digit_cases:
  "d < 10 \<Longrightarrow> d \<in> {0, 1, 2, 3, 4, 5, 6, 7, 8, 9 :: nat}"
  by auto

lemma digitVal_digit: "d < 10 \<Longrightarrow> digitVal (digit d) = d"
  by (drule digit_cases) (auto simp add: digit_def digitVal_def)

lemma digit_is_digit: "d < 10 \<Longrightarrow> digit d \<in> set ''0123456789''"
  unfolding digit_def by (rule nth_mem) simp

lemma undec_snoc: "undec (s @ [ch]) = 10 * undec s + digitVal ch"
  by (simp add: undec_def)

lemma undec_dec: "undec (dec n) = n"
proof (induction n rule: dec.induct)
  case (1 n)
  show ?case
  proof (cases "n < 10")
    case True
    then show ?thesis
      by (simp add: dec.simps [of n] undec_def digitVal_digit)
  next
    case False
    with 1 have "undec (dec (n div 10)) = n div 10" by simp
    with False show ?thesis
      by (simp add: dec.simps [of n] undec_snoc digitVal_digit)
  qed
qed

lemma dec_digits: "ch \<in> set (dec n) \<Longrightarrow> ch \<in> set ''0123456789''"
proof (induction n rule: dec.induct)
  case (1 n)
  show ?case
  proof (cases "n < 10")
    case True
    with 1(2) show ?thesis
      using digit_is_digit [of n] by (simp add: dec.simps [of n])
  next
    case False
    with 1 show ?thesis
      using digit_is_digit [of "n mod 10"] by (auto simp: dec.simps [of n])
  qed
qed

section \<open>Replacement\<close>

text \<open>
  C1. Two ways, one set, 64-byte lines; A = 0, B = 64, C = 128 map to the same set
  with tags 0, 1, 2. On the code the first line goes to way 1 (way 0 is never tested
  for being empty), B then replaces A, the second access to A misses and replaces B,
  and C replaces A: after the four calls neither A nor B is resident, and way 0 is
  still empty.
\<close>

theorem C1_lru_scenario_on_code:
  "let g = geom_2way;
       c0 = newCache g;
       r1 = access g c0 0 False; c1 = state_of r1;
       r2 = access g c1 64 False; c2 = state_of r2;
       r3 = access g c2 0 False; c3 = state_of r3;
       r4 = access g c3 128 False; c4 = state_of r4
   in setOf g 0 = 0 \<and> setOf g 64 = 0 \<and> setOf g 128 = 0 \<and>
      tagOf g 0 = 0 \<and> tagOf g 64 = 1 \<and> tagOf g 128 = 2 \<and>
      \<not> is_aborted r1 \<and> \<not> is_aborted r2 \<and> \<not> is_aborted r3 \<and> \<not> is_aborted r4 \<and>
      tagarray c1 = [0, 1] \<and> tagarray c2 = [0, 65] \<and>
      tagarray c3 = [0, 1] \<and> tagarray c4 = [0, 129] \<and>
      \<not> isHit g c2 0 \<and> isHit g c3 0 \<and> \<not> isHit g c3 64 \<and>
      \<not> isHit g c4 0 \<and> \<not> isHit g c4 64 \<and> isHit g c4 128 \<and>
      misses c4 = 4"
  by code_simp

text \<open>
  C2. \<open>findVictim\<close> starts its loop at way 1, so the state bits of way 0 are never
  read. On a fresh two-way set (both slots empty) it returns way 1, not way 0; and
  when way 0 is empty while way 1 holds a line it returns way 1, the valid slot.
\<close>

theorem C2_findVictim_on_code:
  "\<not> slotValid geom_2way (newCache geom_2way) 0 \<and>
   findVictim geom_2way (newCache geom_2way) 0 = 1 \<and>
   (let c = \<lparr> tagarray = [0, 65], tsarray = [0, 2], tsmax = [2],
               accesses = 2, misses = 2, lowerLevel = [] \<rparr>
    in \<not> slotValid geom_2way c 0 \<and> slotValid geom_2way c 1 \<and>
       findVictim geom_2way c 0 = 1)"
  by code_simp

section \<open>Scenarios\<close>

text \<open>
  C3. On a fresh cache with one way, one set and 64-byte lines, the calls
  \<open>access(0,false)\<close>, \<open>access(0,false)\<close>, \<open>access(64,false)\<close>, \<open>access(0,false)\<close>
  all return, their outcomes are miss, hit, miss, miss (the scan finds the line only
  in the second call, and the miss counter reads 1, 1, 2, 3 after the calls), and the
  unit ends with \<open>accesses = 4\<close> and \<open>misses = 3\<close>.
\<close>

theorem C3_end_to_end:
  "let g = geom_1way;
       c0 = newCache g;
       r1 = access g c0 0 False; c1 = state_of r1;
       r2 = access g c1 0 False; c2 = state_of r2;
       r3 = access g c2 64 False; c3 = state_of r3;
       r4 = access g c3 0 False; c4 = state_of r4
   in \<not> isHit g c0 0 \<and> isHit g c1 0 \<and> \<not> isHit g c2 64 \<and> \<not> isHit g c3 0 \<and>
      \<not> is_aborted r1 \<and> \<not> is_aborted r2 \<and> \<not> is_aborted r3 \<and> \<not> is_aborted r4 \<and>
      misses c1 = 1 \<and> misses c2 = 1 \<and> misses c3 = 2 \<and> misses c4 = 3 \<and>
      accesses c4 = 4 \<and>
      run g [Access 0 False, Access 0 False, Access 64 False, Access 0 False] c0
        = Returned c4"
  by code_simp

section \<open>Invalidation\<close>

text \<open>
  C4. On a unit with arrays of the declared sizes, \<open>invalidate(X)\<close> overwrites with 0
  every slot of X's set whose stored tag is X's tag, whether or not the slot is
  valid, and leaves every other slot as it was; it makes no call on the lower-level
  device and leaves \<open>accesses\<close>, \<open>misses\<close>, the timestamps and the set counters
  unchanged. In the state it leaves, \<open>access(X,_)\<close> misses (the scan finds no line
  and \<open>misses\<close> goes up by one), and for every address with another tag the outcome
  of \<open>access\<close> is what it was before the invalidation: a line that was resident
  still hits.
\<close>

theorem C4_invalidate:
  assumes "wf_geom g" and "wf_cache g c"
  shows "let c' = invalidate g c X; s = setOf g X; t = tagOf g X in
           (\<forall>i \<in> set (slots g s). slotTag g c i = t \<longrightarrow> tagarray c' ! i = 0) \<and>
           (\<forall>i < length (tagarray c).
               \<not> (i \<in> set (slots g s) \<and> slotTag g c i = t) \<longrightarrow>
               tagarray c' ! i = tagarray c ! i) \<and>
           length (tagarray c') = length (tagarray c) \<and>
           tsarray c' = tsarray c \<and> tsmax c' = tsmax c \<and>
           lowerLevel c' = lowerLevel c \<and>
           accesses c' = accesses c \<and> misses c' = misses c \<and>
           \<not> isHit g c' X \<and>
           misses (state_of (access g c' X wr)) = misses c' + 1 \<and>
           (\<forall>Y. tagOf g Y \<noteq> tagOf g X \<longrightarrow> isHit g c' Y = isHit g c Y)"
proof -
  have range: "i < length (tagarray c)" if "i \<in> set (slots g (setOf g a))" for i a
    using that assms slots_in_range [of "setOf g a" g i]
    by (simp add: wf_cache_def setOf_less_wf)
  have miss: "\<not> isHit g (invalidate g c X) X"
    unfolding isHit_def
    by (auto simp: findMatch_None invalidate_slot range)
  have other: "isHit g (invalidate g c X) Y = isHit g c Y" if "tagOf g Y \<noteq> tagOf g X" for Y
  proof -
    have "findMatch g (invalidate g c X) (tagOf g Y) (slots g (setOf g Y)) =
          findMatch g c (tagOf g Y) (slots g (setOf g Y))"
      using that by (intro findMatch_cong) (auto simp: invalidate_slot range)
    then show ?thesis
      by (simp add: isHit_def)
  qed
  have cnt: "misses (state_of (access g (invalidate g c X) X wr)) = misses (invalidate g c X) + 1"
    using miss by (simp add: access_eq isHit_def Let_def)
  show ?thesis
    using miss other cnt invalidate_frame [of g c X]
    by (simp add: Let_def invalidate_nth range)
qed

theorem C4_invalidate_witness:
  "let g = geom_3way; c = cache_3way_two; c' = invalidate g c 70
   in state_of (run g [Access 64 False, Access 128 False] (newCache g)) = c \<and>
      wf_geom g \<and> wf_cache g c \<and>
      tagarray c = [0, 65, 129] \<and> tagarray c' = [0, 0, 129] \<and>
      setOf g 70 = setOf g 128 \<and> tagOf g 70 = tagOf g 64 \<and>
      isHit g c 64 \<and> isHit g c 128 \<and> \<not> isHit g c' 70 \<and> isHit g c' 128 \<and>
      lowerLevel c' = [LLAccess 64 False, LLAccess 128 False] \<and>
      accesses c' = 2 \<and> misses c' = 2 \<and>
      misses (state_of (access g c' 70 True)) = 3"
proof -
  have g: "wf_geom geom_3way"
    by (simp add: wf_geom_def geom_3way_def)
  have w: "wf_cache geom_3way cache_3way_two"
    by (simp add: wf_cache_def geom_3way_def cache_3way_two_def)
  have e: "state_of (run geom_3way [Access 64 False, Access 128 False] (newCache geom_3way))
             = cache_3way_two"
    "tagarray cache_3way_two = [0, 65, 129]"
    "tagarray (invalidate geom_3way cache_3way_two 70) = [0, 0, 129]"
    "setOf geom_3way 70 = setOf geom_3way 128" "tagOf geom_3way 70 = tagOf geom_3way 64"
    "tagOf geom_3way 128 \<noteq> tagOf geom_3way 70"
    "isHit geom_3way cache_3way_two 64" "isHit geom_3way cache_3way_two 128"
    "lowerLevel cache_3way_two = [LLAccess 64 False, LLAccess 128 False]"
    "accesses cache_3way_two = 2" "misses cache_3way_two = 2"
    by code_simp+
  show ?thesis
    using C4_invalidate [OF g w, of 70 True] g w e
    by (simp add: Let_def)
qed

section \<open>Miss propagation\<close>

text \<open>
  C5. Whatever the state, the address and the write flag: a call of \<open>access\<close> that
  misses adds exactly one call to the lower-level device, \<open>access\<close> of the address
  with its low \<open>L2LINESZ\<close> bits cleared and the same write flag (also when the call
  then aborts in \<open>updateRepl\<close>); a call that hits adds none. The address passed down
  is block-aligned and is the same for all addresses of one block.
\<close>

theorem C5_miss_propagation:
  "lowerLevel (state_of (access g c addr wr)) =
     (if isHit g c addr then lowerLevel c
      else lowerLevel c @ [LLAccess (addr AND NOT (mask (L2LINESZ g))) wr]) \<and>
   (addr AND NOT (mask (L2LINESZ g))) AND mask (L2LINESZ g) = 0 \<and>
   (tagOf g addr' = tagOf g addr \<longrightarrow>
      addr' AND NOT (mask (L2LINESZ g)) = addr AND NOT (mask (L2LINESZ g)))"
proof (intro conjI impI)
  show "lowerLevel (state_of (access g c addr wr)) =
     (if isHit g c addr then lowerLevel c
      else lowerLevel c @ [LLAccess (addr AND NOT (mask (L2LINESZ g))) wr])"
    by (simp add: access_eq isHit_def Let_def block_aligned [symmetric] tagOf_def
        split: option.split)
  show "(addr AND NOT (mask (L2LINESZ g))) AND mask (L2LINESZ g) = 0"
    by (rule bit_eqI) (auto simp: bit_simps)
  assume "tagOf g addr' = tagOf g addr"
  then show "addr' AND NOT (mask (L2LINESZ g)) = addr AND NOT (mask (L2LINESZ g))"
    by (simp add: block_aligned [symmetric] tagOf_def)
qed

theorem C5_miss_propagation_witness:
  "let g = geom_2x2; c0 = newCache g;
       c1 = state_of (access g c0 200 True);
       c2 = state_of (access g c1 197 False)
   in \<not> isHit g c0 200 \<and> lowerLevel c1 = [LLAccess 192 True] \<and>
      tagOf g 197 = tagOf g 200 \<and>
      isHit g c1 197 \<and> lowerLevel c2 = [LLAccess 192 True]"
proof -
  have miss: "\<not> isHit geom_2x2 (newCache geom_2x2) 200"
    and hit: "isHit geom_2x2 (state_of (access geom_2x2 (newCache geom_2x2) 200 True)) 197"
    and tags: "tagOf geom_2x2 197 = tagOf geom_2x2 200"
    and low: "lowerLevel (newCache geom_2x2) = []"
    and al: "(200 :: 64 word) AND NOT (mask (L2LINESZ geom_2x2)) = 192"
    by code_simp+
  show ?thesis
    using C5_miss_propagation [of geom_2x2 "newCache geom_2x2" 200 True 197]
      C5_miss_propagation [of geom_2x2 "state_of (access geom_2x2 (newCache geom_2x2) 200 True)"
        197 False 200]
      miss hit tags low al
    by (simp add: Let_def)
qed

section \<open>The per-set timestamp counter\<close>

text \<open>
  C6. On a unit with arrays of the declared sizes, a call of \<open>access\<close>, hit or miss,
  whose set counter is not \<open>TIMESTAMP_MAX\<close> returns and leaves the counter of that set
  exactly one higher (as a number, with no wrap-around); when the counter is
  \<open>TIMESTAMP_MAX\<close> the call aborts in the assertion and the counter is left as it was.
\<close>

theorem C6_timestamp_counter:
  assumes "wf_geom g" and "wf_cache g c"
  shows "let s = setOf g addr; r = access g c addr wr in
           (tsmax c ! s \<noteq> TIMESTAMP_MAX \<longrightarrow>
              \<not> is_aborted r \<and>
              tsmax (state_of r) ! s = tsmax c ! s + 1 \<and>
              unat (tsmax (state_of r) ! s) = unat (tsmax c ! s) + 1) \<and>
           (tsmax c ! s = TIMESTAMP_MAX \<longrightarrow>
              is_aborted r \<and> tsmax (state_of r) = tsmax c)"
proof -
  have "setOf g addr < length (tsmax c)"
    using assms by (simp add: wf_cache_def setOf_less_wf)
  then show ?thesis
    by (simp add: access_eq Let_def unat_ts_succ split: option.split)
qed

theorem C6_timestamp_counter_witness:
  "wf_geom geom_2way \<and> wf_cache geom_2way (newCache geom_2way) \<and>
   wf_cache geom_2way cache_full_ts \<and>
   tsmax (newCache geom_2way) ! setOf geom_2way 0 = 0 \<and>
   \<not> is_aborted (access geom_2way (newCache geom_2way) 0 False) \<and>
   unat (tsmax (state_of (access geom_2way (newCache geom_2way) 0 False)) ! setOf geom_2way 0) = 1 \<and>
   tsmax cache_full_ts ! setOf geom_2way 64 = TIMESTAMP_MAX \<and>
   isHit geom_2way cache_full_ts 64 \<and>
   is_aborted (access geom_2way cache_full_ts 64 False) \<and>
   \<not> isHit geom_2way cache_full_ts 128 \<and>
   is_aborted (access geom_2way cache_full_ts 128 True) \<and>
   tsmax (state_of (access geom_2way cache_full_ts 128 True)) = [4294967295]"
proof -
  have g: "wf_geom geom_2way"
    and w0: "wf_cache geom_2way (newCache geom_2way)"
    and w1: "wf_cache geom_2way cache_full_ts"
    by (simp_all add: wf_geom_def wf_cache_def geom_defs newCache_def initArrays_def
        cache_full_ts_def)
  have e: "tsmax (newCache geom_2way) ! setOf geom_2way 0 = 0"
    "tsmax cache_full_ts ! setOf geom_2way 64 = TIMESTAMP_MAX"
    "tsmax cache_full_ts ! setOf geom_2way 128 = TIMESTAMP_MAX"
    "isHit geom_2way cache_full_ts 64" "\<not> isHit geom_2way cache_full_ts 128"
    "tsmax cache_full_ts = [4294967295]"
    "(0 :: timestamp_t) \<noteq> TIMESTAMP_MAX"
    by code_simp+
  show ?thesis
    using C6_timestamp_counter [OF g w0, of 0 False]
      C6_timestamp_counter [OF g w1, of 64 False]
      C6_timestamp_counter [OF g w1, of 128 True] g w0 w1 e
    by (simp add: Let_def)
qed

section \<open>Residency\<close>

text \<open>
  C7. Take any sequence of \<open>access\<close> and \<open>invalidate\<close> calls on a freshly
  initialised unit and any point \<open>n\<close> of it. In the state reached there (the state at
  the abort, if a call aborted), every tag is held by at most one valid slot of any
  set, in particular of the set its address maps to, and every set has at most
  \<open>WAYS\<close> resident lines.
\<close>

theorem C7_residency:
  assumes "wf_geom g" and "s < 2 ^ L2SETS g"
  shows "let c = state_of (run g (take n ops) (newCache g)) in
           length (residentSlots g c s t) \<le> 1 \<and>
           length (residentSlots g c (setOf g a) (tagOf g a)) \<le> 1 \<and>
           length (residentLines g c s) \<le> WAYS g"
proof -
  let ?c = "state_of (run g (take n ops) (newCache g))"
  have n: "noDup g ?c"
    using inv_run [OF assms(1), of "newCache g" "take n ops"] inv_init [of g] by simp
  have one: "length (residentSlots g ?c s' t') \<le> 1" if "s' < 2 ^ L2SETS g" for s' t'
    unfolding residentSlots_def
  proof (rule filter_at_most_one [OF distinct_slots], intro ballI impI)
    fix i j
    assume "i \<in> set (slots g s')" and "j \<in> set (slots g s')"
      and "(slotValid g ?c i \<and> slotTag g ?c i = t') \<and> slotValid g ?c j \<and> slotTag g ?c j = t'"
    with n that show "i = j"
      unfolding noDup_def by blast
  qed
  have "length (residentLines g ?c s) \<le> length (slots g s)"
    unfolding residentLines_def by (rule length_filter_le)
  then show ?thesis
    using one [OF assms(2)] one [OF setOf_less_wf [OF assms(1)]]
    by (simp add: Let_def length_slots)
qed

theorem C7_residency_witness:
  "let g = geom_3way;
       ops = [Access 64 False, Access 128 False, Access 64 True, Access 192 False,
              Invalidate 128, Access 256 False];
       c = state_of (run g (take 4 ops) (newCache g));
       c' = state_of (run g (take 6 ops) (newCache g))
   in wf_geom g \<and> (0::nat) < 2 ^ L2SETS g \<and>
      tagarray c = [0, 193, 129] \<and> tagarray c' = [0, 193, 257] \<and>
      residentSlots g c 0 3 = [1] \<and> residentSlots g c 0 1 = [] \<and>
      residentLines g c 0 = [1, 2] \<and>
      length (residentSlots g c' 0 4) \<le> 1 \<and> length (residentLines g c' 0) \<le> WAYS g"
proof -
  have g: "wf_geom geom_3way"
    by (simp add: wf_geom_def geom_3way_def)
  have s: "(0::nat) < 2 ^ L2SETS geom_3way"
    by simp
  have e: "tagarray (state_of (run geom_3way (take 4 [Access 64 False, Access 128 False, Access 64 True, Access 192 False,
              Invalidate 128, Access 256 False]) (newCache geom_3way))) = [0, 193, 129]"
      "tagarray (state_of (run geom_3way (take 6 [Access 64 False, Access 128 False, Access 64 True, Access 192 False,
              Invalidate 128, Access 256 False]) (newCache geom_3way))) = [0, 193, 257]"
      "residentSlots geom_3way (state_of (run geom_3way (take 4 [Access 64 False, Access 128 False, Access 64 True, Access 192 False,
              Invalidate 128, Access 256 False]) (newCache geom_3way))) 0 3 = [1]"
      "residentSlots geom_3way (state_of (run geom_3way (take 4 [Access 64 False, Access 128 False, Access 64 True, Access 192 False,
              Invalidate 128, Access 256 False]) (newCache geom_3way))) 0 1 = []"
      "residentLines geom_3way (state_of (run geom_3way (take 4 [Access 64 False, Access 128 False, Access 64 True, Access 192 False,
              Invalidate 128, Access 256 False]) (newCache geom_3way))) 0 = [1, 2]"
    by code_simp+
  show ?thesis
    using C7_residency [OF g s, of 6 "[Access 64 False, Access 128 False, Access 64 True,
        Access 192 False, Invalidate 128, Access 256 False]" 4 256] g s e
    by (simp add: Let_def)
qed

section \<open>Frame of a hit\<close>

text \<open>
  C8. When the scan of \<open>access\<close> finds the line in slot \<open>idx\<close>, the call changes
  nothing but \<open>accesses\<close> (one more), the counter of the target set and the timestamp
  of slot \<open>idx\<close>: the tag array, \<open>misses\<close>, the lower-level device, the counters of all
  other sets and the timestamps of all other slots are as before. This also holds
  for the state in which the call aborts.
\<close>

theorem C8_hit_frame:
  assumes "findMatch g c (tagOf g addr) (slots g (setOf g addr)) = Some idx"
  shows "let c' = state_of (access g c addr wr) in
           tagarray c' = tagarray c \<and> misses c' = misses c \<and>
           lowerLevel c' = lowerLevel c \<and> accesses c' = accesses c + 1 \<and>
           length (tsmax c') = length (tsmax c) \<and>
           length (tsarray c') = length (tsarray c) \<and>
           (\<forall>s'. s' \<noteq> setOf g addr \<longrightarrow> tsmax c' ! s' = tsmax c ! s') \<and>
           (\<forall>i. i \<noteq> idx \<longrightarrow> tsarray c' ! i = tsarray c ! i)"
  using assms by (simp add: access_eq Let_def)

theorem C8_hit_frame_witness:
  "let g = geom_2x2; c = cache_after_two; c' = state_of (access g c 130 True) in
     findMatch g c (tagOf g 130) (slots g (setOf g 130)) = Some 1 \<and> setOf g 130 = 0 \<and>
     tagarray c' = [0, 129, 0, 65] \<and> misses c' = 2 \<and>
     lowerLevel c' = [LLAccess 64 False, LLAccess 128 True] \<and> accesses c' = 3 \<and>
     tsmax c' ! 1 = 1 \<and> tsarray c' ! 0 = 0 \<and> tsarray c' ! 2 = 0 \<and> tsarray c' ! 3 = 1"
proof -
  have e: "findMatch geom_2x2 cache_after_two (tagOf geom_2x2 130)
        (slots geom_2x2 (setOf geom_2x2 130)) = Some 1"
    "setOf geom_2x2 130 = 0"
    by code_simp+
  show ?thesis
    using C8_hit_frame [OF e(1), of True] e
    by (simp add: Let_def cache_after_two_def)
qed

section \<open>The tracer\<close>

text \<open>
  C9. For every address and write flag, \<open>Tracer::access\<close> appends to the text of its
  stream exactly one record: the decimal digits of the address (they read back as
  the address), then \<open>" W"\<close> for a write or \<open>" R"\<close> for a read, then the newline that
  ends the record. \<open>Tracer::invalidate\<close> throws \<open>InvalidAccess\<close> for every address
  and every state of the stream.
\<close>

theorem C9_tracer:
  "Tracer_access tracefile addr wr =
     tracefile @ dec (unat addr) @ (if wr then '' W'' else '' R'') @ [CHR 0x0A] \<and>
   undec (dec (unat addr)) = unat addr \<and>
   (\<forall>ch \<in> set (dec (unat addr)). ch \<in> set ''0123456789'') \<and>
   Tracer_invalidate tracefile addr = Inl InvalidAccess"
  by (simp add: Tracer_access_def Tracer_invalidate_def undec_dec dec_digits del: set_simps)

theorem C9_tracer_witness:
  "Tracer_access (''7 R'' @ [CHR 0x0A]) 4096 True
     = ''7 R'' @ [CHR 0x0A] @ ''4096 W'' @ [CHR 0x0A] \<and>
   Tracer_access [] 0 False = ''0 R'' @ [CHR 0x0A] \<and>
   dec (unat (4096 :: addr_t)) = ''4096'' \<and>
   undec ''4096'' = 4096 \<and>
   Tracer_invalidate (''7 R'' @ [CHR 0x0A]) 4096 = Inl InvalidAccess"
proof -
  have e: "dec (unat (4096 :: addr_t)) = ''4096''" "dec (unat (0 :: addr_t)) = ''0''"
    "unat (4096 :: addr_t) = 4096"
    by (simp_all add: dec.simps digit_def)
  show ?thesis
    using C9_tracer [of "''7 R'' @ [CHR 0x0A]" 4096 True] C9_tracer [of "[]" 0 False] e
    by simp
qed

section \<open>The write flag\<close>

text \<open>
  C10. Two calls of \<open>access\<close> from the same state at the same address with write
  flags \<open>wr\<close> and \<open>wr'\<close> agree on whether they abort, on the outcome (the miss counter)
  and on the tag array, the timestamps, the set counters and both counters; the flag
  only shows in the call passed to the lower-level device on a miss. \<open>invalidate\<close> has
  no write flag among its arguments.
\<close>

theorem C10_write_flag:
  "let r = access g c addr wr; r' = access g c addr wr' in
     is_aborted r = is_aborted r' \<and>
     tagarray (state_of r) = tagarray (state_of r') \<and>
     tsarray (state_of r) = tsarray (state_of r') \<and>
     tsmax (state_of r) = tsmax (state_of r') \<and>
     accesses (state_of r) = accesses (state_of r') \<and>
     misses (state_of r) = misses (state_of r') \<and>
     misses (state_of r) = (if isHit g c addr then misses c else misses c + 1) \<and>
     lowerLevel (state_of r) =
       (if isHit g c addr then lowerLevel c
        else lowerLevel c @ [LLAccess (push_bit (L2LINESZ g) (tagOf g addr)) wr]) \<and>
     lowerLevel (state_of r') =
       (if isHit g c addr then lowerLevel c
        else lowerLevel c @ [LLAccess (push_bit (L2LINESZ g) (tagOf g addr)) wr'])"
  by (simp add: access_eq isHit_def Let_def split: option.split)

theorem C10_write_flag_witness:
  "let g = geom_2x2; c = cache_after_two;
       r = access g c 256 True; r' = access g c 256 False in
     \<not> isHit g c 256 \<and> is_aborted r = is_aborted r' \<and>
     tagarray (state_of r) = tagarray (state_of r') \<and>
     tsarray (state_of r) = tsarray (state_of r') \<and>
     tsmax (state_of r) = tsmax (state_of r') \<and>
     accesses (state_of r) = accesses (state_of r') \<and>
     misses (state_of r) = 3 \<and> misses (state_of r') = 3 \<and>
     lowerLevel (state_of r) = [LLAccess 64 False, LLAccess 128 True, LLAccess 256 True] \<and>
     lowerLevel (state_of r') = [LLAccess 64 False, LLAccess 128 True, LLAccess 256 False]"
proof -
  have e: "\<not> isHit geom_2x2 cache_after_two 256"
    "push_bit (L2LINESZ geom_2x2) (tagOf geom_2x2 256) = 256"
    "misses cache_after_two = 2"
    "lowerLevel cache_after_two = [LLAccess 64 False, LLAccess 128 True]"
    by code_simp+
  show ?thesis
    using C10_write_flag [of geom_2x2 cache_after_two 256 True False] e
    by (auto simp: Let_def)
qed

end
